theory Spec2Isabelle
  imports Main "HOL-Library.Sublist"
begin

chapter \<open>The programs\<close>

section \<open>Memento: \<open>StateMachine\<close> and \<open>MachineMemento\<close>\<close>

text \<open>
  The enum \<open>State\<close> of the Memento example, the memento object (one private field, read
  through \<open>getState\<close>, never written after construction) and the machine. A method of
  the machine takes the machine and returns it updated; the lines it prints are appended
  to \<open>machine_console\<close>.
\<close>

datatype State = INIT | LOAD | PROCESS | FINISH

fun State_name :: "State \<Rightarrow> string" where
  "State_name INIT = ''INIT''"
| "State_name LOAD = ''LOAD''"
| "State_name PROCESS = ''PROCESS''"
| "State_name FINISH = ''FINISH''"

datatype MachineMemento = MachineMemento State

fun getState :: "MachineMemento \<Rightarrow> State" where
  "getState (MachineMemento s) = s"

record StateMachine =
  machine_state :: State
  machine_console :: "string list"

definition new_StateMachine :: StateMachine where
  "new_StateMachine =
     \<lparr>machine_state = INIT, machine_console = [''Machine in initial state!'']\<rparr>"

definition machine_log :: "string \<Rightarrow> StateMachine \<Rightarrow> StateMachine" where
  "machine_log line m = m\<lparr>machine_console := machine_console m @ [line]\<rparr>"

fun advanceCycle :: "StateMachine \<Rightarrow> StateMachine" where
  "advanceCycle m =
     (case machine_state m of
        INIT \<Rightarrow>
          (let m1 = m\<lparr>machine_state := LOAD\<rparr>
           in machine_log (''Advanced to state '' @ State_name (machine_state m1)) m1)
      | LOAD \<Rightarrow>
          (let m1 = m\<lparr>machine_state := PROCESS\<rparr>
           in machine_log (''Advanced to state '' @ State_name (machine_state m1)) m1)
      | PROCESS \<Rightarrow> machine_log ''Process finished!'' (m\<lparr>machine_state := FINISH\<rparr>)
      | FINISH \<Rightarrow> machine_log ''Returned to initial state'' (m\<lparr>machine_state := INIT\<rparr>))"

definition saveState :: "StateMachine \<Rightarrow> MachineMemento \<times> StateMachine" where
  "saveState m =
     (let m1 = machine_log ''Saving current state...'' m
      in (MachineMemento (machine_state m1), m1))"

definition restoreState :: "MachineMemento \<Rightarrow> StateMachine \<Rightarrow> StateMachine" where
  "restoreState memento m =
     (let m1 = m\<lparr>machine_state := getState memento\<rparr>
      in machine_log (''State restored to '' @ State_name (machine_state m1)) m1)"

section \<open>Observer: \<open>Messenger\<close> and its subscribers\<close>

text \<open>
  A subscriber is an object, compared by identity (\<open>s !== subscriber\<close>), so it is a
  reference. The private field \<open>subscribers\<close> of a \<open>Messenger\<close> holds a reference to an
  array object: \<open>push\<close> changes that array in place, while \<open>filter\<close> builds a new array
  and the field is assigned the new reference. \<open>forEach\<close> reads the length of the array
  once, before the first callback, and then reads the elements of that same array object
  by index. Both matter as soon as a \<open>receiveEvent\<close> body calls back into the subject, so
  the array objects live in an explicit store.

  The interface \<open>Subscriber\<close> leaves the body of \<open>receiveEvent\<close> open. A body is
  represented by the calls it makes on the two mutators of the subject, in order. These
  may depend on the receiver, on the event and on all invocations of \<open>receiveEvent\<close>
  made before, so a subscriber may keep state of its own; the two loggers of the example
  make no call at all (they only print). \<open>received\<close> records every invocation of
  \<open>receiveEvent\<close>: the receiver and the event it was handed.
\<close>

type_synonym subscriber = nat
type_synonym array_ref = nat

datatype subject_call = CallAddSubscriber subscriber | CallRemoveSubscriber subscriber

type_synonym bodies = "subscriber \<Rightarrow> string \<Rightarrow> (subscriber \<times> string) list \<Rightarrow> subject_call list"

record Messenger =
  arrays :: "array_ref \<Rightarrow> subscriber list"
  fresh_array :: array_ref
  subscribers :: array_ref
  received :: "(subscriber \<times> string) list"
  messenger_console :: "string list"

definition new_Messenger :: Messenger where
  "new_Messenger =
     \<lparr>arrays = (\<lambda>_. []), fresh_array = 1, subscribers = 0, received = [],
      messenger_console = []\<rparr>"

text \<open>The contents of the array the field points to: the subscriber list.\<close>

definition subscriber_list :: "Messenger \<Rightarrow> subscriber list" where
  "subscriber_list m = arrays m (subscribers m)"

definition addSubscriber :: "subscriber \<Rightarrow> Messenger \<Rightarrow> Messenger" where
  "addSubscriber s m =
     m\<lparr>arrays := (arrays m)(subscribers m := arrays m (subscribers m) @ [s])\<rparr>"

definition removeSubscriber :: "subscriber \<Rightarrow> Messenger \<Rightarrow> Messenger" where
  "removeSubscriber s m =
     m\<lparr>arrays := (arrays m)
         (fresh_array m := filter (\<lambda>x. x \<noteq> s) (arrays m (subscribers m))),
       subscribers := fresh_array m,
       fresh_array := Suc (fresh_array m)\<rparr>"

fun run_call :: "subject_call \<Rightarrow> Messenger \<Rightarrow> Messenger" where
  "run_call (CallAddSubscriber s) m = addSubscriber s m"
| "run_call (CallRemoveSubscriber s) m = removeSubscriber s m"

definition receiveEvent :: "bodies \<Rightarrow> subscriber \<Rightarrow> string \<Rightarrow> Messenger \<Rightarrow> Messenger" where
  "receiveEvent bodies s event m =
     foldl (\<lambda>m' c. run_call c m') (m\<lparr>received := received m @ [(s, event)]\<rparr>)
       (bodies s event (received m))"

text \<open>
  \<open>Array.prototype.forEach\<close> on the array object \<open>a\<close>: \<open>len\<close> was read before the loop,
  index \<open>k\<close> is visited when the array still has it.
\<close>

function forEach_subscribers ::
  "bodies \<Rightarrow> array_ref \<Rightarrow> nat \<Rightarrow> nat \<Rightarrow> string \<Rightarrow> Messenger \<Rightarrow> Messenger" where
  "forEach_subscribers bodies a k len event m =
     (if k < len then
        (if k < length (arrays m a)
         then forEach_subscribers bodies a (Suc k) len event
                (receiveEvent bodies (arrays m a ! k) event m)
         else forEach_subscribers bodies a (Suc k) len event m)
      else m)"
  by pat_completeness auto
termination
  by (relation "measure (\<lambda>(bodies, a, k, len, event, m). len - k)") auto

declare forEach_subscribers.simps [simp del]

definition emitEvent :: "bodies \<Rightarrow> string \<Rightarrow> Messenger \<Rightarrow> Messenger" where
  "emitEvent bodies event m =
     (let m1 = m\<lparr>messenger_console := messenger_console m @ [''Emitting event: '' @ event]\<rparr>;
          a = subscribers m1
      in forEach_subscribers bodies a 0 (length (arrays m1 a)) event m1)"

text \<open>The invocations of \<open>receiveEvent\<close> made by one \<open>emitEvent\<close> call.\<close>

definition in_flight :: "bodies \<Rightarrow> string \<Rightarrow> Messenger \<Rightarrow> (subscriber \<times> string) list" where
  "in_flight bodies event m =
     drop (length (received m)) (received (emitEvent bodies event m))"

text \<open>
  The array the field points to has been allocated. This holds for \<open>new_Messenger\<close> and
  is kept by every method.
\<close>

definition allocated :: "Messenger \<Rightarrow> bool" where
  "allocated m \<longleftrightarrow> subscribers m < fresh_array m"

text \<open>
  While \<open>forEach\<close> runs over the array \<open>a\<close> whose contents were \<open>xs\<close> at the start:
  the array is allocated and still begins with \<open>xs\<close>.
\<close>

definition iterating :: "array_ref \<Rightarrow> subscriber list \<Rightarrow> Messenger \<Rightarrow> bool" where
  "iterating a xs m \<longleftrightarrow>
     a < fresh_array m \<and> subscribers m < fresh_array m \<and> prefix xs (arrays m a)"

text \<open>
  A sequence of calls on the subject in which \<open>addSubscriber\<close> is never called for a
  subscriber that is in the list at that moment.
\<close>

fun no_resubscribe :: "Messenger \<Rightarrow> subject_call list \<Rightarrow> bool" where
  "no_resubscribe m [] = True"
| "no_resubscribe m (c # cs) =
     ((case c of CallAddSubscriber s \<Rightarrow> s \<notin> set (subscriber_list m)
              | CallRemoveSubscriber s \<Rightarrow> True)
      \<and> no_resubscribe (run_call c m) cs)"

text \<open>
  The two loggers of the example, and bodies for the examples below: subscriber 1
  subscribes 2 and unsubscribes 3 when it is notified; every other subscriber only
  listens.
\<close>

definition loggers :: bodies where
  "loggers s event before = []"

definition meddling :: bodies where
  "meddling s event before =
     (if s = 1 then [CallAddSubscriber 2, CallRemoveSubscriber 3] else [])"

section \<open>Mediator: \<open>FormMediator\<close>, \<open>ResetButton\<close> and \<open>Checkbox\<close>\<close>

text \<open>
  One form: a reset button, a checkbox and the mediator between them. The record holds
  the fields of the two components (\<open>button_mediator\<close> and \<open>checkbox_mediator\<close> say
  whether the component's \<open>mediator\<close> reference has been set) and the lines printed so
  far.

  \<open>notify\<close> reads the member \<open>this[`handle${event}`]\<close>. The members of a
  \<open>FormMediator\<close> are the fields \<open>button\<close> and \<open>checkbox\<close>, the methods \<open>notify\<close>,
  \<open>handleCheckboxMarked\<close> and \<open>handleReset\<close>, and what every object inherits; the key
  that is looked up always begins with \<open>handle\<close>, so \<open>FormMediator_member\<close> lists the
  two methods that such a key can name. This is the handler table of the mediator: it is
  part of the class, and no method changes it.
\<close>

record Form =
  button_mediator :: bool
  button_disabled :: bool
  checkbox_mediator :: bool
  checkbox_marked :: bool
  form_console :: "string list"

datatype FormMediator_method = handleCheckboxMarked_method | handleReset_method

definition FormMediator_member :: "string \<Rightarrow> FormMediator_method option" where
  "FormMediator_member key =
     (if key = ''handleCheckboxMarked'' then Some handleCheckboxMarked_method
      else if key = ''handleReset'' then Some handleReset_method
      else None)"

definition form_log :: "string \<Rightarrow> Form \<Rightarrow> Form" where
  "form_log line f = f\<lparr>form_console := form_console f @ [line]\<rparr>"

definition new_Form :: Form where
  "new_Form =
     \<lparr>button_mediator = False, button_disabled = True,
      checkbox_mediator = False, checkbox_marked = False, form_console = []\<rparr>"

definition new_FormMediator :: "Form \<Rightarrow> Form" where
  "new_FormMediator f = f\<lparr>button_mediator := True, checkbox_mediator := True\<rparr>"

definition enable :: "Form \<Rightarrow> Form" where
  "enable f = (form_log ''Enabling reset button...'' f)\<lparr>button_disabled := False\<rparr>"

definition clear :: "Form \<Rightarrow> Form" where
  "clear f = (form_log ''Clearing checkbox...'' f)\<lparr>checkbox_marked := False\<rparr>"

definition handleCheckboxMarked :: "Form \<Rightarrow> Form" where
  "handleCheckboxMarked f = enable (form_log ''Mediator received CheckboxMarked event!'' f)"

definition handleReset :: "Form \<Rightarrow> Form" where
  "handleReset f = clear (form_log ''Mediator received Reset event!'' f)"

definition notify :: "string \<Rightarrow> Form \<Rightarrow> Form" where
  "notify event f =
     (case FormMediator_member (''handle'' @ event) of
        Some handleCheckboxMarked_method \<Rightarrow> handleCheckboxMarked f
      | Some handleReset_method \<Rightarrow> handleReset f
      | None \<Rightarrow> form_log ''Unhandled event!'' f)"

definition checkbox_click :: "Form \<Rightarrow> Form" where
  "checkbox_click f =
     (let f1 = f\<lparr>checkbox_marked := True\<rparr>
      in if checkbox_mediator f1 then notify ''CheckboxMarked'' f1 else f1)"

definition button_click :: "Form \<Rightarrow> Form" where
  "button_click f =
     (if button_disabled f then f
      else (let f1 = (if button_mediator f then notify ''Reset'' f else f)
            in f1\<lparr>button_disabled := True\<rparr>))"

section \<open>Chain of responsibility: \<open>Handler\<close> and its three subclasses\<close>

text \<open>
  A handler is an object with one field, the reference \<open>nextHandler\<close> (unset until
  \<open>setNext\<close> is called), and a class that fixes its methods. The handler objects live
  in a store, since \<open>setNext\<close> can point a handler at any other one, itself included. A
  request that runs through the chain keeps a \<open>chain_run\<close>: the handlers whose
  \<open>handleRequest\<close> was invoked, in order, and the lines printed.

  \<open>handleRequest\<close> calls itself on the next handler, and nothing in the code stops
  two handlers from pointing at each other; the recursion is bounded by \<open>fuel\<close>, and
  \<open>None\<close> stands for a call that does not return within it. \<open>handleRequest\<close> returns
  \<open>null\<close> whenever it returns, so the result is the run alone.
\<close>

type_synonym handler_ref = nat

datatype handler_class = AuthHandler | DatabaseHandler | AlertHandler

record Handler =
  handler_class :: handler_class
  nextHandler :: "handler_ref option"

type_synonym handlers = "handler_ref \<Rightarrow> Handler"

record chain_run =
  handled :: "handler_ref list"
  chain_console :: "string list"

definition AUTHORIZED :: string where "AUTHORIZED = ''authorized''"
definition UNAUTHORIZED :: string where "UNAUTHORIZED = ''unauthorized''"
definition SAVE_TO_DATABASE :: string where "SAVE_TO_DATABASE = ''save to database''"
definition ALERT_USER :: string where "ALERT_USER = ''alert user''"

definition new_Handler :: "handler_class \<Rightarrow> Handler" where
  "new_Handler c = \<lparr>handler_class = c, nextHandler = None\<rparr>"

definition new_run :: chain_run where
  "new_run = \<lparr>handled = [], chain_console = []\<rparr>"

definition chain_log :: "string \<Rightarrow> chain_run \<Rightarrow> chain_run" where
  "chain_log line run = run\<lparr>chain_console := chain_console run @ [line]\<rparr>"

definition setNext :: "handler_ref \<Rightarrow> handler_ref \<Rightarrow> handlers \<Rightarrow> handler_ref \<times> handlers" where
  "setNext this handler hs = (handler, hs(this := (hs this)\<lparr>nextHandler := Some handler\<rparr>))"

text \<open>\<open>params.indexOf(x) !== -1\<close> holds when \<open>x\<close> is one of the strings of \<open>params\<close>.\<close>

fun shouldForwardRequest ::
  "handler_class \<Rightarrow> string list \<Rightarrow> chain_run \<Rightarrow> bool \<times> chain_run" where
  "shouldForwardRequest AuthHandler params run =
     (let authorized = AUTHORIZED \<in> set params
      in if authorized then (True, chain_log ''Authorized user, forwarding...'' run)
         else (False, chain_log ''User unauthorized, stopping process...'' run))"
| "shouldForwardRequest DatabaseHandler params run = (True, run)"
| "shouldForwardRequest AlertHandler params run = (False, run)"

text \<open>
  \<open>AuthHandler\<close> inherits \<open>handleRequest\<close> from \<open>Handler\<close>; the other two override it.
  In \<open>handleRequestPropagation\<close> the test \<open>this.nextHandler && ...\<close> does not call
  \<open>shouldForwardRequest\<close> when there is no next handler.
\<close>

fun handleRequest ::
  "nat \<Rightarrow> handlers \<Rightarrow> handler_ref \<Rightarrow> string list \<Rightarrow> chain_run \<Rightarrow> chain_run option"
and handleRequestPropagation ::
  "nat \<Rightarrow> handlers \<Rightarrow> handler_ref \<Rightarrow> string list \<Rightarrow> chain_run \<Rightarrow> chain_run option"
where
  "handleRequest 0 hs this params run = None"
| "handleRequest (Suc fuel) hs this params run =
     (let run1 = run\<lparr>handled := handled run @ [this]\<rparr>
      in case handler_class (hs this) of
           AuthHandler \<Rightarrow> handleRequestPropagation fuel hs this params run1
         | DatabaseHandler \<Rightarrow>
             handleRequestPropagation fuel hs this params
               (if SAVE_TO_DATABASE \<in> set params
                then chain_log ''Saving request to database...'' run1 else run1)
         | AlertHandler \<Rightarrow>
             handleRequestPropagation fuel hs this params
               (if ALERT_USER \<in> set params
                then chain_log ''Sending message to user...'' run1 else run1))"
| "handleRequestPropagation fuel hs this params run =
     (case nextHandler (hs this) of
        None \<Rightarrow> Some run
      | Some next \<Rightarrow>
          (case shouldForwardRequest (handler_class (hs this)) params run of
             (True, run1) \<Rightarrow> handleRequest fuel hs next params run1
           | (False, run1) \<Rightarrow> Some run1))"

declare handleRequestPropagation.simps [simp del]

text \<open>
  \<open>this.setNext(r1).setNext(r2)...\<close>: each \<open>setNext\<close> returns its argument, so the
  calls wire \<open>this\<close> to \<open>r1\<close>, \<open>r1\<close> to \<open>r2\<close> and so on.
\<close>

fun wire :: "handler_ref \<Rightarrow> handler_ref list \<Rightarrow> handlers \<Rightarrow> handlers" where
  "wire this [] hs = hs"
| "wire this (r # rs) hs = (case setNext this r hs of (next, hs1) \<Rightarrow> wire next rs hs1)"

text \<open>In the store, \<open>r\<close> points at the first of \<open>rs\<close>, each of \<open>rs\<close> at the one after
  it, and the last at nothing.\<close>

fun linked :: "handlers \<Rightarrow> handler_ref \<Rightarrow> handler_ref list \<Rightarrow> bool" where
  "linked hs r [] \<longleftrightarrow> nextHandler (hs r) = None"
| "linked hs r (x # xs) \<longleftrightarrow> nextHandler (hs r) = Some x \<and> linked hs x xs"

text \<open>The three handlers that \<open>app\<close> creates and wires, in a store \<open>hs\<close>.\<close>

definition authHandler :: handler_ref where "authHandler = 0"
definition databaseHandler :: handler_ref where "databaseHandler = 1"
definition alertHandler :: handler_ref where "alertHandler = 2"

definition app_chain :: "handlers \<Rightarrow> handlers" where
  "app_chain hs =
     wire authHandler [databaseHandler, alertHandler]
       (hs(authHandler := new_Handler AuthHandler,
           databaseHandler := new_Handler DatabaseHandler,
           alertHandler := new_Handler AlertHandler))"

section \<open>Numbers\<close>

text \<open>
  A \<open>cost\<close> is a JavaScript number, a double, and \<open>+\<close> on numbers is the addition of
  IEEE 754 binary64 with rounding to nearest, ties to even. A finite number other than
  \<open>-0\<close> is \<open>Dyadic m e\<close>, the value \<open>m * 2 ^ e\<close>; the numbers proper are written with
  an odd \<open>m\<close>, and \<open>+0\<close> as \<open>Dyadic 0 0\<close>, so that equal numbers are equal terms. Every
  double has such a form. The type has further values (a mantissa with more than 53 bits,
  an exponent below \<open>-1074\<close>), on which the operations below are the same rounding of
  the exact result.
\<close>

datatype js_number = NaN | PosInfinity | NegInfinity | NegZero | Dyadic int int

text \<open>The number of binary digits of a positive integer.\<close>

function bit_length :: "int \<Rightarrow> int" where
  "bit_length m = (if m \<le> 0 then 0 else bit_length (m div 2) + 1)"
  by pat_completeness auto
termination
  by (relation "measure nat") auto

declare bit_length.simps [simp del]

text \<open>The form with an odd mantissa.\<close>

function normal :: "int \<Rightarrow> int \<Rightarrow> js_number" where
  "normal m e =
     (if m = 0 then Dyadic 0 0
      else if even m then normal (m div 2) (e + 1)
      else Dyadic m e)"
  by pat_completeness auto
termination
  by (relation "measure (\<lambda>(m, e). nat \<bar>m\<bar>)") auto

declare normal.simps [simp del]

text \<open>
  A rounded result \<open>r * 2 ^ q\<close> with \<open>- 1074 \<le> q\<close>: from \<open>2 ^ 1024\<close> on it is an
  infinity.
\<close>

definition finish :: "int \<Rightarrow> int \<Rightarrow> js_number" where
  "finish r q =
     (if 2 ^ 2098 \<le> \<bar>r\<bar> * 2 ^ nat (q + 1074)
      then (if 0 < r then PosInfinity else NegInfinity)
      else normal r q)"

text \<open>
  The double nearest to the exact value \<open>m * 2 ^ e\<close>. With \<open>b\<close> binary digits in
  \<open>m\<close>, the doubles around the value are the multiples of \<open>2 ^ q\<close> for
  \<open>q = max (b + e - 53) (- 1074)\<close>: the value is one of them when \<open>q \<le> e\<close>, and is
  rounded to the nearest one otherwise, to the even one of the two when it lies halfway.
\<close>

definition round_double :: "int \<Rightarrow> int \<Rightarrow> js_number" where
  "round_double m e =
     (if m = 0 then Dyadic 0 0
      else
        (let q = max (bit_length \<bar>m\<bar> + e - 53) (- 1074)
         in if q \<le> e then finish m e
            else
              (let k = nat (q - e);
                   quotient = m div 2 ^ k;
                   remainder = m mod 2 ^ k;
                   half = 2 ^ (k - 1);
                   r = (if half < remainder \<or> (remainder = half \<and> odd quotient)
                        then quotient + 1 else quotient)
               in if r = 0 then (if m < 0 then NegZero else Dyadic 0 0)
                  else finish r q)))"

text \<open>The number that an integer literal denotes.\<close>

definition number :: "int \<Rightarrow> js_number" where
  "number i = round_double i 0"

definition exact_sum :: "int \<Rightarrow> int \<Rightarrow> int \<Rightarrow> int \<Rightarrow> js_number" where
  "exact_sum m1 e1 m2 e2 =
     (let e = min e1 e2
      in round_double (m1 * 2 ^ nat (e1 - e) + m2 * 2 ^ nat (e2 - e)) e)"

text \<open>
  \<open>x + y\<close> on numbers. A sum that is exactly zero is \<open>+0\<close>, except that
  \<open>-0 + -0\<close> is \<open>-0\<close>.
\<close>

fun js_add :: "js_number \<Rightarrow> js_number \<Rightarrow> js_number" where
  "js_add NaN y = NaN"
| "js_add x NaN = NaN"
| "js_add PosInfinity NegInfinity = NaN"
| "js_add NegInfinity PosInfinity = NaN"
| "js_add PosInfinity y = PosInfinity"
| "js_add x PosInfinity = PosInfinity"
| "js_add NegInfinity y = NegInfinity"
| "js_add x NegInfinity = NegInfinity"
| "js_add NegZero NegZero = NegZero"
| "js_add NegZero (Dyadic m e) = round_double m e"
| "js_add (Dyadic m e) NegZero = round_double m e"
| "js_add (Dyadic m1 e1) (Dyadic m2 e2) = exact_sum m1 e1 m2 e2"

section \<open>Composite: \<open>TreeComponent\<close>, leaves and containers\<close>

text \<open>
  Components are objects that refer to each other: a container holds references to its
  children, every component a reference to its parent, and \<open>app\<close> adds \<open>smallPackage\<close>
  to \<open>mainPackage\<close> before it fills \<open>smallPackage\<close>. So the components live in a store,
  and \<open>addChild\<close> and \<open>removeChild\<close> update it. The array of a container never leaves
  the container and is not changed while it is traversed, so it is kept as a list in the
  component. A \<open>cost\<close> is a number, and costs are added as numbers are.

  Nothing stops \<open>addChild\<close> from making a component its own descendant, and
  \<open>getTotalCost\<close> on such a store never returns: the recursion is bounded by \<open>fuel\<close>,
  with \<open>None\<close> for a call that does not return within it.
\<close>

type_synonym component_ref = nat

datatype component_class = LeafComponent | ContainerComponent

record TreeComponent =
  component_class :: component_class
  cost :: js_number
  parent :: "component_ref option"
  children :: "component_ref list"

type_synonym components = "component_ref \<Rightarrow> TreeComponent"

definition new_TreeComponent :: "component_class \<Rightarrow> js_number \<Rightarrow> TreeComponent" where
  "new_TreeComponent c n = \<lparr>component_class = c, cost = n, parent = None, children = []\<rparr>"

definition isContainer :: "components \<Rightarrow> component_ref \<Rightarrow> bool" where
  "isContainer cs this =
     (case component_class (cs this) of LeafComponent \<Rightarrow> False | ContainerComponent \<Rightarrow> True)"

definition setParent ::
  "component_ref \<Rightarrow> component_ref option \<Rightarrow> components \<Rightarrow> components" where
  "setParent this component cs = cs(this := (cs this)\<lparr>parent := component\<rparr>)"

definition getParent :: "components \<Rightarrow> component_ref \<Rightarrow> component_ref option" where
  "getParent cs this = parent (cs this)"

definition addChild :: "component_ref \<Rightarrow> component_ref \<Rightarrow> components \<Rightarrow> components" where
  "addChild this component cs =
     (case component_class (cs this) of
        LeafComponent \<Rightarrow> cs
      | ContainerComponent \<Rightarrow>
          (let cs1 = setParent component (Some this) cs
           in cs1(this := (cs1 this)\<lparr>children := children (cs1 this) @ [component]\<rparr>)))"

definition removeChild :: "component_ref \<Rightarrow> component_ref \<Rightarrow> components \<Rightarrow> components" where
  "removeChild this component cs =
     (case component_class (cs this) of
        LeafComponent \<Rightarrow> cs
      | ContainerComponent \<Rightarrow>
          (let cs1 = setParent component None cs
           in cs1(this := (cs1 this)
                \<lparr>children := filter (\<lambda>item. item \<noteq> component) (children (cs1 this))\<rparr>)))"

text \<open>
  The loop of the container, \<open>childrenCost += child.getTotalCost()\<close> from
  \<open>childrenCost = 0\<close>, is the left fold of the addition of numbers; it yields nothing
  as soon as one child does not return.
\<close>

fun getTotalCost :: "nat \<Rightarrow> components \<Rightarrow> component_ref \<Rightarrow> js_number option" where
  "getTotalCost 0 cs this = None"
| "getTotalCost (Suc fuel) cs this =
     (case component_class (cs this) of
        LeafComponent \<Rightarrow> Some (cost (cs this))
      | ContainerComponent \<Rightarrow>
          (case foldl (\<lambda>acc child.
                   case acc of
                     None \<Rightarrow> None
                   | Some childrenCost \<Rightarrow>
                       (case getTotalCost fuel cs child of
                          None \<Rightarrow> None
                        | Some c \<Rightarrow> Some (js_add childrenCost c)))
                 (Some (number 0)) (children (cs this)) of
             None \<Rightarrow> None
           | Some childrenCost \<Rightarrow> Some (js_add (cost (cs this)) childrenCost)))"

text \<open>
  The sum of a list of numbers as the loop takes it: from \<open>0\<close>, in the order of the
  list. The addition of numbers rounds, so the order of a sum matters.
\<close>

definition sum_numbers :: "js_number list \<Rightarrow> js_number" where
  "sum_numbers vs = foldl js_add (number 0) vs"

text \<open>
  A finite tree of costs, and what it means for the part of the store below the
  component \<open>r\<close> to be such a tree: \<open>r\<close> is a leaf of that cost, or a container of that
  cost whose children, in order, have the shapes of the subtrees. A store in which a
  component is its own descendant has no shape at that component. The cost of a tree is
  the cost at its root plus the sum of the costs of its subtrees.
\<close>

datatype 'a tree = Leaf 'a | Node 'a "'a tree list"

fun tree_cost :: "js_number tree \<Rightarrow> js_number" where
  "tree_cost (Leaf c) = c"
| "tree_cost (Node c ts) = js_add c (sum_numbers (map tree_cost ts))"

fun height :: "'a tree \<Rightarrow> nat" where
  "height (Leaf c) = 0"
| "height (Node c ts) = Suc (foldr max (map height ts) 0)"

fun shape :: "components \<Rightarrow> js_number tree \<Rightarrow> component_ref \<Rightarrow> bool" where
  "shape cs (Leaf c) r \<longleftrightarrow>
     component_class (cs r) = LeafComponent \<and> cost (cs r) = c"
| "shape cs (Node c ts) r \<longleftrightarrow>
     component_class (cs r) = ContainerComponent \<and> cost (cs r) = c \<and>
     list_all2 (shape cs) ts (children (cs r))"

text \<open>
  A tree of integer costs: the sum of its costs as integers, and the sum of their
  absolute values, which bounds every sum of costs that is taken within the tree.
\<close>

fun exact_cost :: "int tree \<Rightarrow> int" where
  "exact_cost (Leaf c) = c"
| "exact_cost (Node c ts) = c + sum_list (map exact_cost ts)"

fun weight :: "int tree \<Rightarrow> int" where
  "weight (Leaf c) = \<bar>c\<bar>"
| "weight (Node c ts) = \<bar>c\<bar> + sum_list (map weight ts)"

text \<open>The five components that \<open>app\<close> creates and assembles, in a store \<open>cs\<close>.\<close>

definition mainPackage :: component_ref where "mainPackage = 0"
definition mediumItem :: component_ref where "mediumItem = 1"
definition smallPackage :: component_ref where "smallPackage = 2"
definition smallItem :: component_ref where "smallItem = 3"
definition smallerItem :: component_ref where "smallerItem = 4"

definition app_tree :: "components \<Rightarrow> components" where
  "app_tree cs =
     (let cs1 = cs(mainPackage := new_TreeComponent ContainerComponent (number 15),
                   mediumItem := new_TreeComponent LeafComponent (number 10),
                   smallPackage := new_TreeComponent ContainerComponent (number 7),
                   smallItem := new_TreeComponent LeafComponent (number 5),
                   smallerItem := new_TreeComponent LeafComponent (number 3));
          cs2 = addChild mainPackage mediumItem cs1;
          cs3 = addChild mainPackage smallPackage cs2;
          cs4 = addChild smallPackage smallItem cs3;
          cs5 = addChild smallPackage smallerItem cs4
      in cs5)"

text \<open>
  The tree of costs that \<open>app\<close> builds, and a package of cost \<open>2 ^ 53\<close> that holds
  one item of cost \<open>1\<close>.
\<close>

definition app_costs :: "int tree" where
  "app_costs = Node 15 [Leaf 10, Node 7 [Leaf 5, Leaf 3]]"

definition big_package :: "components \<Rightarrow> components" where
  "big_package cs =
     addChild mainPackage mediumItem
       (cs(mainPackage := new_TreeComponent ContainerComponent (number 9007199254740992),
           mediumItem := new_TreeComponent LeafComponent (number 1)))"

section \<open>Prototype: \<open>Duplicant\<close> and \<open>clone\<close>\<close>

text \<open>
  \<open>clone\<close> builds its result with \<open>Object.create\<close>, so what a property of the clone
  reads depends on the prototype chain and on which objects are shared. The objects live
  in a heap; an object has its own properties and a reference to its prototype, and
  reading a property walks the chain until an object has it. Numbers are integers here:
  the example only carries them around. The chain of an object that \<open>Object.create\<close> or
  \<open>new\<close> has made is finite, but a heap of this type need not be so; \<open>get\<close> is the
  partial function that is undefined (\<open>None\<close>) only where the walk would not end.

  The methods of a class are functions of this theory, not property values:
  \<open>Duplicant.prototype\<close> is an object without data properties, and the chain is cut
  above it and above an object literal, where only built-in methods would follow.
\<close>

type_synonym object_ref = nat

datatype js_value = Num int | Str string | Bool bool | Ref object_ref | Null | Undefined

datatype js_error = TypeError

record js_object =
  proto :: "object_ref option"
  own :: "string \<rightharpoonup> js_value"

record heap =
  objects :: "object_ref \<Rightarrow> js_object"
  fresh_object :: object_ref

partial_function (option) get :: "heap \<Rightarrow> object_ref \<Rightarrow> string \<Rightarrow> js_value option" where
  "get h a key =
     (case own (objects h a) key of
        Some v \<Rightarrow> Some v
      | None \<Rightarrow>
          (case proto (objects h a) of
             None \<Rightarrow> Some Undefined
           | Some p \<Rightarrow> get h p key))"

definition set_prop :: "object_ref \<Rightarrow> string \<Rightarrow> js_value \<Rightarrow> heap \<Rightarrow> heap" where
  "set_prop a key v h =
     h\<lparr>objects := (objects h)(a := (objects h a)\<lparr>own := (own (objects h a))(key \<mapsto> v)\<rparr>)\<rparr>"

definition alloc :: "js_object \<Rightarrow> heap \<Rightarrow> object_ref \<times> heap" where
  "alloc obj h =
     (fresh_object h,
      h\<lparr>objects := (objects h)(fresh_object h := obj), fresh_object := Suc (fresh_object h)\<rparr>)"

fun Object_create :: "js_value \<Rightarrow> heap \<Rightarrow> js_error + object_ref \<times> heap" where
  "Object_create (Ref p) h = Inr (alloc \<lparr>proto = Some p, own = Map.empty\<rparr> h)"
| "Object_create Null h = Inr (alloc \<lparr>proto = None, own = Map.empty\<rparr> h)"
| "Object_create v h = Inl TypeError"

definition Duplicant_prototype :: object_ref where
  "Duplicant_prototype = 0"

definition new_Duplicant :: "js_value \<Rightarrow> js_value \<Rightarrow> heap \<Rightarrow> object_ref \<times> heap" where
  "new_Duplicant id' data h =
     alloc \<lparr>proto = Some Duplicant_prototype, own = [''id'' \<mapsto> id', ''data'' \<mapsto> data]\<rparr> h"

definition clone :: "object_ref \<Rightarrow> heap \<Rightarrow> (js_error + object_ref \<times> heap) option" where
  "clone this h =
     (case Object_create (Ref this) h of
        Inl e \<Rightarrow> Some (Inl e)
      | Inr (clone, h1) \<Rightarrow>
          (case get h1 this ''data'' of
             None \<Rightarrow> None
           | Some data \<Rightarrow>
               (case Object_create data h1 of
                  Inl e \<Rightarrow> Some (Inl e)
                | Inr (clone_data, h2) \<Rightarrow>
                    Some (Inr (clone, set_prop clone ''data'' (Ref clone_data) h2)))))"

text \<open>
  The heap in which \<open>app\<close> creates its duplicant: \<open>Duplicant.prototype\<close>, then the
  two object literals of \<open>duplicantData\<close>, the inner one first.
\<close>

definition initial_heap :: heap where
  "initial_heap =
     \<lparr>objects = (\<lambda>_. \<lparr>proto = None, own = Map.empty\<rparr>),
      fresh_object = Suc Duplicant_prototype\<rparr>"

definition object_literal :: "(string \<times> js_value) list \<Rightarrow> heap \<Rightarrow> object_ref \<times> heap" where
  "object_literal props h = alloc \<lparr>proto = None, own = map_of props\<rparr> h"

definition app_heap :: heap where
  "app_heap =
     (case object_literal [(''name'', Str ''Ivy''), (''age'', Num 27)] initial_heap of
        (bio, h1) \<Rightarrow>
          (case object_literal [(''bio'', Ref bio), (''ultra'', Bool True)] h1 of
             (duplicantData, h2) \<Rightarrow> h2))"

chapter \<open>What the programs do\<close>

section \<open>Properties of the memento\<close>

lemma machine_state_log: "machine_state (machine_log line m) = machine_state m"
  by (simp add: machine_log_def)

lemma machine_state_saveState: "machine_state (snd (saveState m)) = machine_state m"
  by (simp add: saveState_def Let_def machine_state_log)

lemma getState_saveState: "getState (fst (saveState m)) = machine_state m"
  by (simp add: saveState_def Let_def machine_state_log)

lemma machine_state_restoreState:
  "machine_state (restoreState memento m) = getState memento"
  by (simp add: restoreState_def Let_def machine_state_log)

text \<open>
  C10. Memento round trip. \<open>saveState\<close> leaves the machine's state as it is. A memento
  taken in state \<open>s\<close> brings the machine back to exactly \<open>s\<close> when it is restored after
  any number \<open>n\<close> of \<open>advanceCycle\<close> calls; with \<open>n = 0\<close> this is
  \<open>restoreState (saveState ())\<close>, which leaves the state unchanged. The statement holds
  for every machine, so for every reachable one.
\<close>

theorem memento_round_trip:
  "machine_state (snd (saveState m)) = machine_state m \<and>
   machine_state
     (restoreState (fst (saveState m)) ((advanceCycle ^^ n) (snd (saveState m))))
     = machine_state m \<and>
   machine_state (restoreState (fst (saveState m)) (snd (saveState m))) = machine_state m"
  by (simp only: machine_state_saveState getState_saveState machine_state_restoreState)

section \<open>Properties of the observer\<close>

subsection \<open>The subscriber list under the two mutators\<close>

lemma allocated_new: "allocated new_Messenger"
  by (simp add: allocated_def new_Messenger_def)

lemma allocated_addSubscriber: "allocated m \<Longrightarrow> allocated (addSubscriber s m)"
  by (simp add: allocated_def addSubscriber_def)

lemma allocated_removeSubscriber: "allocated (removeSubscriber s m)"
  by (simp add: allocated_def removeSubscriber_def)

lemma subscriber_list_new: "subscriber_list new_Messenger = []"
  by (simp add: subscriber_list_def new_Messenger_def)

lemma received_new: "received new_Messenger = []"
  by (simp add: new_Messenger_def)

lemma subscriber_list_addSubscriber:
  "subscriber_list (addSubscriber s m) = subscriber_list m @ [s]"
  by (simp add: subscriber_list_def addSubscriber_def)

lemma subscriber_list_removeSubscriber:
  "subscriber_list (removeSubscriber s m) = filter (\<lambda>x. x \<noteq> s) (subscriber_list m)"
  by (simp add: subscriber_list_def removeSubscriber_def)

lemma received_addSubscriber: "received (addSubscriber s m) = received m"
  by (simp add: addSubscriber_def)

lemma subscribe_all:
  "subscriber_list (foldl (\<lambda>m s. addSubscriber s m) m ss) = subscriber_list m @ ss \<and>
   received (foldl (\<lambda>m s. addSubscriber s m) m ss) = received m \<and>
   (allocated m \<longrightarrow> allocated (foldl (\<lambda>m s. addSubscriber s m) m ss))"
  by (induction ss arbitrary: m)
    (simp_all add: subscriber_list_addSubscriber received_addSubscriber allocated_addSubscriber)

subsection \<open>What a running \<open>forEach\<close> keeps\<close>

lemma iterating_addSubscriber: "iterating a xs m \<Longrightarrow> iterating a xs (addSubscriber s m)"
  by (auto simp: iterating_def addSubscriber_def)

lemma iterating_removeSubscriber:
  "iterating a xs m \<Longrightarrow> iterating a xs (removeSubscriber s m)"
  by (auto simp: iterating_def removeSubscriber_def)

lemma iterating_calls:
  "iterating a xs m \<Longrightarrow> iterating a xs (foldl (\<lambda>m' c. run_call c m') m cs)"
proof (induction cs arbitrary: m)
  case Nil
  then show ?case by simp
next
  case (Cons c cs)
  then show ?case
    by (cases c) (simp_all add: iterating_addSubscriber iterating_removeSubscriber)
qed

lemma received_calls:
  "received (foldl (\<lambda>m' c. run_call c m') m cs) = received m"
proof (induction cs arbitrary: m)
  case Nil
  then show ?case by simp
next
  case (Cons c cs)
  then show ?case
    by (cases c) (simp_all add: addSubscriber_def removeSubscriber_def)
qed

lemma iterating_receiveEvent:
  "iterating a xs m \<Longrightarrow> iterating a xs (receiveEvent bodies s event m)"
  unfolding receiveEvent_def
  by (rule iterating_calls) (simp add: iterating_def)

lemma received_receiveEvent:
  "received (receiveEvent bodies s event m) = received m @ [(s, event)]"
  by (simp add: receiveEvent_def received_calls)

text \<open>
  From index \<open>k\<close> on, the loop hands the event to the rest of the list that the array
  held when the loop started, whatever the bodies do to the subject meanwhile.
\<close>

lemma forEach_received:
  "iterating a xs m \<Longrightarrow> len = length xs \<Longrightarrow>
   received (forEach_subscribers bodies a k len event m)
     = received m @ map (\<lambda>s. (s, event)) (drop k xs)"
proof (induction bodies a k len event m rule: forEach_subscribers.induct)
  case (1 bodies a k len event m)
  note unfold = forEach_subscribers.simps [of bodies a k len event m]
  show ?case
  proof (cases "k < len")
    case False
    then have "forEach_subscribers bodies a k len event m = m"
      by (simp add: unfold)
    with False "1.prems" show ?thesis
      by simp
  next
    case True
    from "1.prems" obtain zs where zs: "arrays m a = xs @ zs"
      by (auto simp: iterating_def prefix_def)
    with True "1.prems" have inb: "k < length (arrays m a)" and nth: "arrays m a ! k = xs ! k"
      by (simp_all add: nth_append)
    let ?m' = "receiveEvent bodies (arrays m a ! k) event m"
    have step: "forEach_subscribers bodies a k len event m
                  = forEach_subscribers bodies a (Suc k) len event ?m'"
      using True inb by (simp add: unfold)
    have "iterating a xs ?m'"
      using "1.prems"(1) by (rule iterating_receiveEvent)
    then have "received (forEach_subscribers bodies a (Suc k) len event ?m')
            = received ?m' @ map (\<lambda>s. (s, event)) (drop (Suc k) xs)"
      using "1.prems"(2) by (rule "1.IH"(1) [OF True inb])
    moreover have "drop k xs = xs ! k # drop (Suc k) xs"
      using True "1.prems"(2) by (simp add: Cons_nth_drop_Suc)
    ultimately show ?thesis
      by (simp add: step nth received_receiveEvent)
  qed
qed

lemma emitEvent_received:
  assumes "subscribers m < fresh_array m"
  shows "received (emitEvent bodies event m)
           = received m @ map (\<lambda>s. (s, event)) (subscriber_list m)"
proof -
  let ?m1 = "m\<lparr>messenger_console := messenger_console m @ [''Emitting event: '' @ event]\<rparr>"
  have "iterating (subscribers m) (subscriber_list m) ?m1"
    using assms by (simp add: iterating_def subscriber_list_def)
  from forEach_received [OF this, of "length (subscriber_list m)" bodies 0 event]
  show ?thesis
    by (simp add: emitEvent_def Let_def subscriber_list_def)
qed

lemma once_in_distinct:
  "distinct xs \<Longrightarrow> x \<in> set xs \<Longrightarrow>
   length (filter (\<lambda>c. fst c = x) (map (\<lambda>s. (s, e)) xs)) = 1"
proof (induction xs)
  case Nil
  then show ?case by simp
next
  case (Cons y ys)
  show ?case
  proof (cases "y = x")
    case True
    with Cons.prems have "filter (\<lambda>c. fst c = x) (map (\<lambda>s. (s, e)) ys) = []"
      by (auto simp: filter_empty_conv)
    with True show ?thesis by simp
  next
    case False
    with Cons show ?thesis by simp
  qed
qed

subsection \<open>Publishing\<close>

text \<open>
  C1. Subscribe the pairwise distinct subscribers \<open>ss\<close> to a new \<open>Messenger\<close>, in that
  order and with no removal in between, then emit one event: \<open>receiveEvent\<close> is invoked
  on the subscribers in the order \<open>ss\<close>, each with the emitted event, and every subscriber
  of \<open>ss\<close> is invoked exactly once.
\<close>

theorem emitEvent_each_once_in_order:
  assumes "distinct ss"
  shows "received (emitEvent bodies event (foldl (\<lambda>m s. addSubscriber s m) new_Messenger ss))
           = map (\<lambda>s. (s, event)) ss \<and>
         (\<forall>s \<in> set ss.
            length (filter (\<lambda>c. fst c = s)
              (received (emitEvent bodies event
                 (foldl (\<lambda>m s. addSubscriber s m) new_Messenger ss)))) = 1)"
proof -
  let ?m = "foldl (\<lambda>m s. addSubscriber s m) new_Messenger ss"
  have "subscriber_list ?m = ss" and "received ?m = []" and "allocated ?m"
    using subscribe_all [of new_Messenger ss] allocated_new
    by (simp_all add: subscriber_list_new received_new)
  then have eq: "received (emitEvent bodies event ?m) = map (\<lambda>s. (s, event)) ss"
    by (simp add: emitEvent_received allocated_def)
  show ?thesis
    unfolding eq using assms once_in_distinct [of ss _ event] by blast
qed

theorem emitEvent_each_once_in_order_witness:
  "distinct [4, 9, 2 :: nat] \<and>
   received (emitEvent loggers ''FIRST event''
     (addSubscriber 2 (addSubscriber 9 (addSubscriber 4 new_Messenger))))
     = [(4, ''FIRST event''), (9, ''FIRST event''), (2, ''FIRST event'')] \<and>
   length (filter (\<lambda>c. fst c = 9)
     (received (emitEvent loggers ''FIRST event''
        (addSubscriber 2 (addSubscriber 9 (addSubscriber 4 new_Messenger)))))) = 1"
  using emitEvent_each_once_in_order [of "[4, 9, 2]" loggers "''FIRST event''"]
  by simp

text \<open>
  C5. Snapshot semantics of \<open>emitEvent\<close>. The code takes no copy of the list, but the
  receivers of one \<open>emitEvent\<close> call are exactly the subscribers that were in the list
  when the call started, in list order, as if it ran over a copy taken then: a subscriber
  that a \<open>receiveEvent\<close> body adds during the call is not handed the event in flight,
  and every subscriber that was present at the start is, also when a body has
  unsubscribed it meanwhile. The bodies range over all sequences of \<open>addSubscriber\<close> and
  \<open>removeSubscriber\<close> calls.
\<close>

theorem emitEvent_snapshot:
  assumes "allocated m"
  shows "in_flight bodies event m = map (\<lambda>s. (s, event)) (subscriber_list m) \<and>
         (\<forall>s. s \<in> fst ` set (in_flight bodies event m) \<longleftrightarrow> s \<in> set (subscriber_list m))"
proof -
  have "in_flight bodies event m = map (\<lambda>s. (s, event)) (subscriber_list m)"
    using assms by (simp add: in_flight_def allocated_def emitEvent_received)
  then show ?thesis
    by (simp add: image_image)
qed

lemma meddling_after:
  "subscriber_list
     (emitEvent meddling ''x'' (addSubscriber 3 (addSubscriber 1 new_Messenger))) = [1, 2]"
  by (simp add: emitEvent_def forEach_subscribers.simps receiveEvent_def meddling_def
      addSubscriber_def removeSubscriber_def new_Messenger_def subscriber_list_def Let_def)

theorem emitEvent_snapshot_witness:
  "allocated (addSubscriber 3 (addSubscriber 1 new_Messenger)) \<and>
   in_flight meddling ''x'' (addSubscriber 3 (addSubscriber 1 new_Messenger))
     = [(1, ''x''), (3, ''x'')] \<and>
   subscriber_list
     (emitEvent meddling ''x'' (addSubscriber 3 (addSubscriber 1 new_Messenger))) = [1, 2]"
proof -
  have a: "allocated (addSubscriber 3 (addSubscriber 1 new_Messenger))"
    by (simp add: allocated_addSubscriber allocated_new)
  from emitEvent_snapshot [OF a, of meddling "''x''"] a meddling_after
  show ?thesis
    by (simp add: subscriber_list_addSubscriber subscriber_list_new)
qed

subsection \<open>Unsubscribing and subscribing\<close>

text \<open>
  C7. \<open>removeSubscriber\<close> of a subscriber that is not in the list leaves the list as it
  is, the same elements in the same order, and does nothing else that can be observed.
  The method has no failing path: it is a total function of the subject.
\<close>

theorem removeSubscriber_absent:
  assumes "s \<notin> set (subscriber_list m)"
  shows "subscriber_list (removeSubscriber s m) = subscriber_list m \<and>
         received (removeSubscriber s m) = received m \<and>
         messenger_console (removeSubscriber s m) = messenger_console m"
proof -
  have "filter (\<lambda>x. x \<noteq> s) (subscriber_list m) = subscriber_list m"
    using assms by (auto simp: filter_id_conv)
  then show ?thesis
    by (simp add: subscriber_list_removeSubscriber) (simp add: removeSubscriber_def)
qed

theorem removeSubscriber_absent_witness:
  "5 \<notin> set (subscriber_list (addSubscriber 8 (addSubscriber 3 new_Messenger))) \<and>
   subscriber_list (removeSubscriber 5 (addSubscriber 8 (addSubscriber 3 new_Messenger)))
     = [3, 8]"
  using removeSubscriber_absent [of 5 "addSubscriber 8 (addSubscriber 3 new_Messenger)"]
  by (simp add: subscriber_list_addSubscriber subscriber_list_new)

text \<open>
  C4, as the spec states it, fails: \<open>addSubscriber\<close> of a subscriber that is already in
  the list changes the list, which then holds the subscriber twice.
\<close>

theorem addSubscriber_present_counterexample:
  "7 \<in> set (subscriber_list (addSubscriber 7 new_Messenger)) \<and>
   subscriber_list (addSubscriber 7 (addSubscriber 7 new_Messenger))
     \<noteq> subscriber_list (addSubscriber 7 new_Messenger) \<and>
   \<not> distinct (subscriber_list (addSubscriber 7 (addSubscriber 7 new_Messenger)))"
  by (simp add: subscriber_list_addSubscriber subscriber_list_new)

lemma distinct_run_call:
  "distinct (subscriber_list m) \<Longrightarrow>
   (case c of CallAddSubscriber s \<Rightarrow> s \<notin> set (subscriber_list m)
            | CallRemoveSubscriber s \<Rightarrow> True) \<Longrightarrow>
   distinct (subscriber_list (run_call c m))"
  by (cases c) (simp_all add: subscriber_list_addSubscriber subscriber_list_removeSubscriber)

lemma distinct_run_calls:
  "distinct (subscriber_list m) \<Longrightarrow> no_resubscribe m cs \<Longrightarrow>
   distinct (subscriber_list (foldl (\<lambda>m' c. run_call c m') m cs))"
proof (induction cs arbitrary: m)
  case Nil
  then show ?case by simp
next
  case (Cons c cs)
  then show ?case by (simp add: distinct_run_call)
qed

text \<open>
  C4, amended. \<open>addSubscriber\<close> appends its argument to the end of the list in every
  case, present or not. Starting from a list without duplicates, after any sequence of
  \<open>addSubscriber\<close> and \<open>removeSubscriber\<close> calls in which no subscriber is subscribed
  while it is in the list, each subscriber appears at most once.
\<close>

theorem addSubscriber_appends:
  "subscriber_list (addSubscriber s m) = subscriber_list m @ [s] \<and>
   (distinct (subscriber_list m) \<longrightarrow> no_resubscribe m cs \<longrightarrow>
      distinct (subscriber_list (foldl (\<lambda>m' c. run_call c m') m cs)))"
  by (simp add: subscriber_list_addSubscriber distinct_run_calls)

theorem addSubscriber_appends_witness:
  "distinct (subscriber_list new_Messenger) \<and>
   no_resubscribe new_Messenger
     [CallAddSubscriber 1, CallAddSubscriber 2, CallRemoveSubscriber 1, CallAddSubscriber 1] \<and>
   distinct (subscriber_list (foldl (\<lambda>m' c. run_call c m') new_Messenger
     [CallAddSubscriber 1, CallAddSubscriber 2, CallRemoveSubscriber 1, CallAddSubscriber 1]))"
  using addSubscriber_appends [of 0 new_Messenger
      "[CallAddSubscriber 1, CallAddSubscriber 2, CallRemoveSubscriber 1, CallAddSubscriber 1]"]
  by (simp add: subscriber_list_addSubscriber subscriber_list_removeSubscriber
      subscriber_list_new)

section \<open>Properties of the mediator\<close>

lemma unhandled_iff:
  "FormMediator_member (''handle'' @ event) = None \<longleftrightarrow>
   event \<noteq> ''CheckboxMarked'' \<and> event \<noteq> ''Reset''"
  by (auto simp: FormMediator_member_def)

text \<open>
  C2. For an event name that no handler is registered for, \<open>notify\<close> takes the
  \<open>Unhandled event!\<close> path: it prints that line and returns normally, and that line is
  its only effect. The button, the checkbox and their mediator references are as before;
  the handler table is not part of the state at all. \<open>notify\<close> has no failing path.
\<close>

theorem notify_unhandled:
  assumes "FormMediator_member (''handle'' @ event) = None"
  shows "notify event f = f\<lparr>form_console := form_console f @ [''Unhandled event!'']\<rparr> \<and>
         button_disabled (notify event f) = button_disabled f \<and>
         checkbox_marked (notify event f) = checkbox_marked f \<and>
         button_mediator (notify event f) = button_mediator f \<and>
         checkbox_mediator (notify event f) = checkbox_mediator f"
  using assms by (simp add: notify_def form_log_def)

theorem notify_unhandled_witness:
  "FormMediator_member (''handle'' @ ''Submit'') = None \<and>
   notify ''Submit'' (new_FormMediator new_Form)
     = (new_FormMediator new_Form)\<lparr>form_console := [''Unhandled event!'']\<rparr>"
  using notify_unhandled [of "''Submit''" "new_FormMediator new_Form"]
  by (simp add: FormMediator_member_def new_Form_def new_FormMediator_def)

section \<open>Properties of the chain of responsibility\<close>

lemma handled_chain_log: "handled (chain_log line run) = handled run"
  by (simp add: chain_log_def)

lemma handled_shouldForwardRequest:
  "handled (snd (shouldForwardRequest c params run)) = handled run"
  by (cases c) (simp_all add: handled_chain_log Let_def)

text \<open>Entering a handler records it and then propagates, whatever its class.\<close>

lemma handleRequest_enter:
  "\<exists>run1. handleRequest (Suc fuel) hs this params run
            = handleRequestPropagation fuel hs this params run1 \<and>
          handled run1 = handled run @ [this]"
proof (cases "handler_class (hs this)")
  case AuthHandler
  then show ?thesis
    by (intro exI [of _ "run\<lparr>handled := handled run @ [this]\<rparr>"]) simp
next
  case DatabaseHandler
  then show ?thesis
    by (intro exI [of _ "if SAVE_TO_DATABASE \<in> set params
          then chain_log ''Saving request to database...''
                 (run\<lparr>handled := handled run @ [this]\<rparr>)
          else run\<lparr>handled := handled run @ [this]\<rparr>"])
      (simp add: handled_chain_log)
next
  case AlertHandler
  then show ?thesis
    by (intro exI [of _ "if ALERT_USER \<in> set params
          then chain_log ''Sending message to user...''
                 (run\<lparr>handled := handled run @ [this]\<rparr>)
          else run\<lparr>handled := handled run @ [this]\<rparr>"])
      (simp add: handled_chain_log)
qed

lemma wire_other: "y \<noteq> this \<Longrightarrow> y \<notin> set rs \<Longrightarrow> wire this rs hs y = hs y"
  by (induction rs arbitrary: this hs) (simp_all add: setNext_def)

lemma wire_linked:
  "distinct (r # rs) \<Longrightarrow> \<forall>x \<in> set (r # rs). nextHandler (hs x) = None \<Longrightarrow>
   linked (wire r rs hs) r rs"
proof (induction rs arbitrary: r hs)
  case Nil
  then show ?case by simp
next
  case (Cons x xs)
  let ?hs1 = "hs(r := (hs r)\<lparr>nextHandler := Some x\<rparr>)"
  have w: "wire r (x # xs) hs = wire x xs ?hs1"
    by (simp add: setNext_def)
  from Cons.prems have "r \<noteq> x" and "r \<notin> set xs"
    by auto
  then have "wire x xs ?hs1 r = ?hs1 r"
    by (simp add: wire_other)
  then have first: "nextHandler (wire x xs ?hs1 r) = Some x"
    by simp
  have "distinct (x # xs)" and "\<forall>y \<in> set (x # xs). nextHandler (?hs1 y) = None"
    using Cons.prems by auto
  then have "linked (wire x xs ?hs1) x xs"
    by (rule Cons.IH)
  with first w show ?case
    by simp
qed

lemma linked_run:
  "linked hs r rs \<Longrightarrow> length rs < fuel \<Longrightarrow>
   \<exists>k run'. k \<le> length rs \<and> handleRequest fuel hs r params run = Some run' \<and>
            handled run' = handled run @ take (Suc k) (r # rs)"
proof (induction rs arbitrary: r fuel run)
  case Nil
  then obtain n where fuel: "fuel = Suc n"
    by (cases fuel) auto
  obtain run1 where
    "handleRequest (Suc n) hs r params run = handleRequestPropagation n hs r params run1"
    and "handled run1 = handled run @ [r]"
    using handleRequest_enter by blast
  with Nil.prems fuel show ?case
    by (simp add: handleRequestPropagation.simps)
next
  case (Cons x xs)
  then obtain n where fuel: "fuel = Suc n" and n: "length xs < n"
    by (cases fuel) auto
  from Cons.prems have nxt: "nextHandler (hs r) = Some x" and rest: "linked hs x xs"
    by simp_all
  obtain run1 where
    enter: "handleRequest (Suc n) hs r params run = handleRequestPropagation n hs r params run1"
    and h1: "handled run1 = handled run @ [r]"
    using handleRequest_enter by blast
  obtain b run2 where fwd: "shouldForwardRequest (handler_class (hs r)) params run1 = (b, run2)"
    by (cases "shouldForwardRequest (handler_class (hs r)) params run1")
  then have h2: "handled run2 = handled run @ [r]"
    using handled_shouldForwardRequest [of "handler_class (hs r)" params run1] h1 by simp
  show ?case
  proof (cases b)
    case False
    with enter nxt fwd fuel have "handleRequest fuel hs r params run = Some run2"
      by (simp add: handleRequestPropagation.simps)
    with h2 show ?thesis
      by (intro exI [of _ 0] exI [of _ run2]) simp
  next
    case True
    with enter nxt fwd fuel
    have step: "handleRequest fuel hs r params run = handleRequest n hs x params run2"
      by (simp add: handleRequestPropagation.simps)
    from Cons.IH [OF rest n] obtain k run'
      where "k \<le> length xs" and "handleRequest n hs x params run2 = Some run'"
        and "handled run' = handled run2 @ take (Suc k) (x # xs)"
      by blast
    with step h2 show ?thesis
      by (intro exI [of _ "Suc k"] exI [of _ run']) simp
  qed
qed

lemma app_authorized:
  "AUTHORIZED \<in> set params \<Longrightarrow> SAVE_TO_DATABASE \<in> set params \<Longrightarrow>
   ALERT_USER \<in> set params \<Longrightarrow>
   handleRequest (Suc (Suc (Suc n))) (app_chain hs) authHandler params new_run =
     Some \<lparr>handled = [authHandler, databaseHandler, alertHandler],
           chain_console = [''Authorized user, forwarding...'',
              ''Saving request to database...'', ''Sending message to user...'']\<rparr>"
  by (simp add: app_chain_def setNext_def new_Handler_def authHandler_def databaseHandler_def
      alertHandler_def new_run_def chain_log_def handleRequestPropagation.simps)

lemma app_unauthorized:
  "AUTHORIZED \<notin> set params \<Longrightarrow>
   handleRequest (Suc n) (app_chain hs) authHandler params new_run =
     Some \<lparr>handled = [authHandler],
           chain_console = [''User unauthorized, stopping process...'']\<rparr>"
  by (simp add: app_chain_def setNext_def new_Handler_def authHandler_def databaseHandler_def
      alertHandler_def new_run_def chain_log_def handleRequestPropagation.simps)

text \<open>
  C3. The chain auth -> database -> alert built by \<open>app\<close>, with fuel for three links or
  more. A request whose params hold \<open>authorized\<close>, \<open>save to database\<close> and
  \<open>alert user\<close> runs through all three handlers: the auth handler forwards, the database
  handler saves, the alert handler alerts. A request whose params hold \<open>unauthorized\<close>
  and not \<open>authorized\<close> reaches the auth handler only, which stops it: the other two are
  never invoked.
\<close>

theorem app_chain_requests:
  "(AUTHORIZED \<in> set params \<and> SAVE_TO_DATABASE \<in> set params \<and> ALERT_USER \<in> set params \<longrightarrow>
      handleRequest (Suc (Suc (Suc n))) (app_chain hs) authHandler params new_run =
        Some \<lparr>handled = [authHandler, databaseHandler, alertHandler],
              chain_console = [''Authorized user, forwarding...'',
                 ''Saving request to database...'', ''Sending message to user...'']\<rparr>) \<and>
   (UNAUTHORIZED \<in> set params \<and> AUTHORIZED \<notin> set params \<longrightarrow>
      handleRequest (Suc (Suc (Suc n))) (app_chain hs) authHandler params new_run =
        Some \<lparr>handled = [authHandler],
              chain_console = [''User unauthorized, stopping process...'']\<rparr>)"
  using app_authorized [of params n hs] app_unauthorized [of params "Suc (Suc n)" hs]
  by blast

theorem app_chain_requests_witness:
  "AUTHORIZED \<in> set [AUTHORIZED, SAVE_TO_DATABASE, ALERT_USER] \<and>
   SAVE_TO_DATABASE \<in> set [AUTHORIZED, SAVE_TO_DATABASE, ALERT_USER] \<and>
   ALERT_USER \<in> set [AUTHORIZED, SAVE_TO_DATABASE, ALERT_USER] \<and>
   handleRequest (Suc (Suc (Suc 0))) (app_chain (\<lambda>_. new_Handler AlertHandler)) authHandler
       [AUTHORIZED, SAVE_TO_DATABASE, ALERT_USER] new_run =
     Some \<lparr>handled = [authHandler, databaseHandler, alertHandler],
           chain_console = [''Authorized user, forwarding...'',
              ''Saving request to database...'', ''Sending message to user...'']\<rparr> \<and>
   UNAUTHORIZED \<in> set [UNAUTHORIZED, SAVE_TO_DATABASE] \<and>
   AUTHORIZED \<notin> set [UNAUTHORIZED, SAVE_TO_DATABASE] \<and>
   handleRequest (Suc (Suc (Suc 0))) (app_chain (\<lambda>_. new_Handler AlertHandler)) authHandler
       [UNAUTHORIZED, SAVE_TO_DATABASE] new_run =
     Some \<lparr>handled = [authHandler],
           chain_console = [''User unauthorized, stopping process...'']\<rparr>"
proof -
  have a: "AUTHORIZED \<notin> set [UNAUTHORIZED, SAVE_TO_DATABASE]"
    by (simp add: AUTHORIZED_def UNAUTHORIZED_def SAVE_TO_DATABASE_def)
  from app_chain_requests
         [of "[AUTHORIZED, SAVE_TO_DATABASE, ALERT_USER]" 0 "\<lambda>_. new_Handler AlertHandler"]
       app_chain_requests
         [of "[UNAUTHORIZED, SAVE_TO_DATABASE]" 0 "\<lambda>_. new_Handler AlertHandler"] a
  show ?thesis
    by simp
qed

text \<open>
  C6. Take \<open>N\<close> distinct, newly created handlers \<open>r # rs\<close> of any of the three classes
  and wire them forward with \<open>setNext\<close>. With fuel for \<open>N\<close> links, \<open>handleRequest\<close> on
  the head returns; the handlers it has invoked are the first \<open>k + 1\<close> links of the
  chain in wiring order, so at most \<open>N\<close> of them, each one step nearer the tail than the
  one before, and none twice.
\<close>

theorem handleRequest_visits_forward:
  assumes "distinct (r # rs)"
    and "\<forall>x \<in> set (r # rs). nextHandler (hs x) = None"
    and "length (r # rs) \<le> fuel"
  shows "\<exists>k run'. k \<le> length rs \<and>
           handleRequest fuel (wire r rs hs) r params run = Some run' \<and>
           handled run' = handled run @ take (Suc k) (r # rs) \<and>
           length (take (Suc k) (r # rs)) \<le> length (r # rs) \<and>
           distinct (take (Suc k) (r # rs))"
proof -
  have "linked (wire r rs hs) r rs"
    using assms(1,2) by (rule wire_linked)
  moreover have "length rs < fuel"
    using assms(3) by simp
  ultimately obtain k run' where "k \<le> length rs"
    and "handleRequest fuel (wire r rs hs) r params run = Some run'"
    and "handled run' = handled run @ take (Suc k) (r # rs)"
    using linked_run by blast
  moreover have "distinct (take (Suc k) (r # rs))"
    using assms(1) distinct_take by blast
  ultimately show ?thesis
    by (intro exI [of _ k] exI [of _ run']) simp
qed

theorem handleRequest_visits_forward_witness:
  "distinct [5, 3, 8 :: nat] \<and>
   nextHandler ((\<lambda>_. new_Handler DatabaseHandler) (5 :: nat)) = None \<and>
   nextHandler ((\<lambda>_. new_Handler DatabaseHandler) (3 :: nat)) = None \<and>
   nextHandler ((\<lambda>_. new_Handler DatabaseHandler) (8 :: nat)) = None \<and>
   length [5, 3, 8 :: nat] \<le> 3 \<and>
   (\<exists>k run'. k \<le> length [3, 8 :: nat] \<and>
      handleRequest 3 (wire 5 [3, 8] (\<lambda>_. new_Handler DatabaseHandler)) 5 [] new_run
        = Some run' \<and>
      handled run' = handled new_run @ take (Suc k) [5, 3, 8] \<and>
      length (take (Suc k) [5, 3, 8 :: nat]) \<le> length [5, 3, 8 :: nat] \<and>
      distinct (take (Suc k) [5, 3, 8 :: nat]))"
proof -
  have d: "distinct (5 # [3, 8 :: nat])"
    by simp
  have f: "\<forall>x \<in> set (5 # [3, 8]). nextHandler ((\<lambda>_. new_Handler DatabaseHandler) x) = None"
    by (simp add: new_Handler_def)
  have l: "length (5 # [3, 8 :: nat]) \<le> 3"
    by simp
  have n: "nextHandler ((\<lambda>_. new_Handler DatabaseHandler) (x :: nat)) = None" for x
    by (simp add: new_Handler_def)
  from handleRequest_visits_forward [OF d f l, of "[]" new_run] d l n
  show ?thesis
    by blast
qed

section \<open>Properties of the composite\<close>

subsection \<open>Sums of small numbers\<close>

lemma add_0_5: "js_add (number 0) (number 5) = number 5"
  by code_simp

lemma add_5_3: "js_add (number 5) (number 3) = number 8"
  by code_simp

lemma add_7_8: "js_add (number 7) (number 8) = number 15"
  by code_simp

lemma add_0_10: "js_add (number 0) (number 10) = number 10"
  by code_simp

lemma add_10_15: "js_add (number 10) (number 15) = number 25"
  by code_simp

lemma add_15_25: "js_add (number 15) (number 25) = number 40"
  by code_simp

lemma add_as_written:
  "js_add (js_add (number 15) (number 10)) (js_add (js_add (number 7) (number 5)) (number 3))
     = number 40"
  by code_simp

text \<open>Above \<open>2 ^ 53\<close> a sum is rounded: \<open>2 ^ 53 + 1\<close> is \<open>2 ^ 53\<close>.\<close>

lemma add_rounds:
  "js_add (number 9007199254740992) (js_add (number 0) (number 1)) = number 9007199254740992"
  by code_simp

subsection \<open>Sums of integers that stay below \<open>2 ^ 53\<close>\<close>

text \<open>
  An integer of absolute value below \<open>2 ^ 53\<close> is a number, and the sum of two such
  numbers is the number of their integer sum when that is below \<open>2 ^ 53\<close> as well:
  nothing is rounded.
\<close>

lemma bit_length_le: "m < 2 ^ n \<Longrightarrow> bit_length m \<le> int n"
proof (induction n arbitrary: m)
  case 0
  then show ?case
    by (simp add: bit_length.simps [of m])
next
  case (Suc n)
  show ?case
  proof (cases "m \<le> 0")
    case True
    then show ?thesis
      by (simp add: bit_length.simps [of m])
  next
    case False
    from Suc.prems have "m div 2 < 2 ^ n"
      by simp
    then have "bit_length (m div 2) \<le> int n"
      by (rule Suc.IH)
    with False show ?thesis
      by (simp add: bit_length.simps [of m])
  qed
qed

lemma normal_0: "normal 0 e = Dyadic 0 0"
  by (simp add: normal.simps [of 0 e])

lemma normal_double: "normal (2 * m) e = normal m (e + 1)"
  by (cases "m = 0") (simp_all add: normal_0 normal.simps [of "2 * m" e])

lemma normal_shift: "normal (m * 2 ^ k) e = normal m (e + int k)"
proof (induction k arbitrary: e)
  case 0
  then show ?case by simp
next
  case (Suc k)
  have "normal (m * 2 ^ Suc k) e = normal (2 * (m * 2 ^ k)) e"
    by (simp add: mult.commute mult.left_commute)
  also have "\<dots> = normal (m * 2 ^ k) (e + 1)"
    by (rule normal_double)
  also have "\<dots> = normal m (e + 1 + int k)"
    by (rule Suc.IH)
  finally show ?case
    by (simp add: add.commute add.left_commute)
qed

lemma normal_form:
  "0 \<le> e \<Longrightarrow> \<exists>m' e'. normal m e = Dyadic m' e' \<and> 0 \<le> e' \<and> m * 2 ^ nat e = m' * 2 ^ nat e'"
proof (induction m e rule: normal.induct)
  case (1 m e)
  show ?case
  proof (cases "m = 0")
    case True
    then show ?thesis
      by (simp add: normal_0)
  next
    case m: False
    show ?thesis
    proof (cases "even m")
      case False
      with m "1.prems" show ?thesis
        by (simp add: normal.simps [of m e])
    next
      case True
      from "1.prems" have "0 \<le> e + 1"
        by simp
      with "1.IH" [OF m True] obtain m' e'
        where n: "normal (m div 2) (e + 1) = Dyadic m' e'" and e': "0 \<le> e'"
          and v: "(m div 2) * 2 ^ nat (e + 1) = m' * 2 ^ nat e'"
        by blast
      from "1.prems" have "nat (e + 1) = Suc (nat e)"
        by simp
      with True have "(m div 2) * 2 ^ nat (e + 1) = m * 2 ^ nat e"
        by (auto elim: evenE)
      with n e' v m True show ?thesis
        by (simp add: normal.simps [of m e])
    qed
  qed
qed

lemma finish_small: "0 \<le> e \<Longrightarrow> \<bar>m\<bar> * 2 ^ nat e < 2 ^ 53 \<Longrightarrow> finish m e = normal m e"
proof -
  assume e: "0 \<le> e" and b: "\<bar>m\<bar> * 2 ^ nat e < 2 ^ 53"
  have "nat (e + 1074) = nat e + 1074"
    using e by simp
  then have "\<bar>m\<bar> * 2 ^ nat (e + 1074) = (\<bar>m\<bar> * 2 ^ nat e) * 2 ^ 1074"
    by (simp add: power_add)
  also have "\<dots> < 2 ^ 53 * 2 ^ 1074"
    using b by simp
  also have "\<dots> \<le> (2 ^ 2098 :: int)"
    by simp
  finally show ?thesis
    by (simp add: finish_def)
qed

lemma round_double_small:
  assumes "0 \<le> e" and "\<bar>m\<bar> * 2 ^ nat e < 2 ^ 53"
  shows "round_double m e = normal m e"
proof (cases "m = 0")
  case True
  then show ?thesis
    by (simp add: round_double_def normal_0)
next
  case False
  have "\<bar>m\<bar> * 1 \<le> \<bar>m\<bar> * 2 ^ nat e"
    by (intro mult_left_mono) simp_all
  with assms(2) have "\<bar>m\<bar> < 2 ^ 53"
    by simp
  then have "bit_length \<bar>m\<bar> \<le> 53"
    using bit_length_le [of "\<bar>m\<bar>" 53] by simp
  with assms(1) have "max (bit_length \<bar>m\<bar> + e - 53) (- 1074) \<le> e"
    by simp
  with False show ?thesis
    by (simp add: round_double_def Let_def finish_small [OF assms])
qed

lemma number_small: "\<bar>a\<bar> < 2 ^ 53 \<Longrightarrow> number a = normal a 0"
  using round_double_small [of 0 a] by (simp add: number_def)

lemma add_small:
  assumes "\<bar>a\<bar> < 2 ^ 53" and "\<bar>b\<bar> < 2 ^ 53" and "\<bar>a + b\<bar> < 2 ^ 53"
  shows "js_add (number a) (number b) = number (a + b)"
proof -
  from normal_form [of 0 a] obtain m1 e1
    where a: "normal a 0 = Dyadic m1 e1" and e1: "0 \<le> e1" and va: "a = m1 * 2 ^ nat e1"
    by auto
  from normal_form [of 0 b] obtain m2 e2
    where b: "normal b 0 = Dyadic m2 e2" and e2: "0 \<le> e2" and vb: "b = m2 * 2 ^ nat e2"
    by auto
  define e where "e = min e1 e2"
  define M where "M = m1 * 2 ^ nat (e1 - e) + m2 * 2 ^ nat (e2 - e)"
  have e: "0 \<le> e" "e \<le> e1" "e \<le> e2"
    using e1 e2 by (simp_all add: e_def)
  have "nat e1 = nat (e1 - e) + nat e" and "nat e2 = nat (e2 - e) + nat e"
    using e by simp_all
  then have p1: "(2::int) ^ nat e1 = 2 ^ nat (e1 - e) * 2 ^ nat e"
    and p2: "(2::int) ^ nat e2 = 2 ^ nat (e2 - e) * 2 ^ nat e"
    by (metis power_add)+
  have "M * 2 ^ nat e
          = m1 * (2 ^ nat (e1 - e) * 2 ^ nat e) + m2 * (2 ^ nat (e2 - e) * 2 ^ nat e)"
    by (simp add: M_def distrib_right mult.assoc)
  also have "\<dots> = a + b"
    by (simp only: p1 [symmetric] p2 [symmetric] va vb)
  finally have v: "M * 2 ^ nat e = a + b" .
  then have "\<bar>M\<bar> * 2 ^ nat e < 2 ^ 53"
    using assms(3) by (simp add: abs_mult [symmetric] del: abs_mult)
  with e(1) have "round_double M e = normal M e"
    by (rule round_double_small)
  also have "\<dots> = normal (M * 2 ^ nat e) 0"
    using e(1) by (simp add: normal_shift)
  also have "\<dots> = number (a + b)"
    using v assms(3) by (simp add: number_small)
  finally have "exact_sum m1 e1 m2 e2 = number (a + b)"
    by (simp add: exact_sum_def Let_def M_def e_def)
  with a b assms(1,2) show ?thesis
    by (simp add: number_small)
qed

lemma sum_small:
  "\<bar>s\<bar> + sum_list (map abs xs) < 2 ^ 53 \<Longrightarrow>
   foldl js_add (number s) (map number xs) = number (s + sum_list xs)"
proof (induction xs arbitrary: s)
  case Nil
  then show ?case by simp
next
  case (Cons x xs)
  have nn: "0 \<le> sum_list (map abs xs)"
    by (rule sum_list_nonneg) auto
  with Cons.prems have "\<bar>s\<bar> < 2 ^ 53" and "\<bar>x\<bar> < 2 ^ 53" and "\<bar>s + x\<bar> < 2 ^ 53"
    by simp_all
  then have "js_add (number s) (number x) = number (s + x)"
    by (rule add_small)
  moreover have "\<bar>s + x\<bar> + sum_list (map abs xs) < 2 ^ 53"
    using Cons.prems by simp
  ultimately show ?case
    using Cons.IH [of "s + x"] by (simp add: add.assoc)
qed

lemma exact_le_weight: "\<bar>exact_cost t\<bar> \<le> weight t"
proof (induction t)
  case (Leaf c)
  then show ?case by simp
next
  case (Node c ts)
  have "\<bar>sum_list (map exact_cost ts)\<bar> \<le> sum_list (map weight ts)"
    using Node.IH
  proof (induction ts)
    case Nil
    then show ?case by simp
  next
    case (Cons t ts)
    then have "\<bar>exact_cost t\<bar> \<le> weight t"
      and "\<bar>sum_list (map exact_cost ts)\<bar> \<le> sum_list (map weight ts)"
      by simp_all
    then show ?case
      by simp
  qed
  then show ?case
    by simp
qed

lemma weight_nonneg: "0 \<le> weight t"
  using exact_le_weight [of t] by simp

lemma weight_child: "t \<in> set ts \<Longrightarrow> weight t \<le> sum_list (map weight ts)"
proof (induction ts)
  case Nil
  then show ?case by simp
next
  case (Cons u us)
  have "0 \<le> sum_list (map weight us)"
    by (rule sum_list_nonneg) (auto simp: weight_nonneg)
  with Cons weight_nonneg [of u] show ?case
    by auto
qed

lemma tree_cost_exact:
  "weight t < 2 ^ 53 \<Longrightarrow> tree_cost (map_tree number t) = number (exact_cost t)"
proof (induction t)
  case (Leaf c)
  then show ?case by simp
next
  case (Node c ts)
  let ?xs = "map exact_cost ts"
  have kids: "map tree_cost (map (map_tree number) ts) = map number ?xs"
  proof -
    have "tree_cost (map_tree number u) = number (exact_cost u)" if "u \<in> set ts" for u
    proof -
      have "weight u \<le> sum_list (map weight ts)"
        using that by (rule weight_child)
      with Node.prems have "weight u < 2 ^ 53"
        by simp
      with that show ?thesis
        by (rule Node.IH)
    qed
    then show ?thesis
      by simp
  qed
  have abs_le: "sum_list (map abs ?xs) \<le> sum_list (map weight ts)"
  proof (induction ts)
    case Nil
    then show ?case by simp
  next
    case (Cons u us)
    with exact_le_weight [of u] show ?case
      by simp
  qed
  with Node.prems have "\<bar>0\<bar> + sum_list (map abs ?xs) < 2 ^ 53"
    by simp
  then have "foldl js_add (number 0) (map number ?xs) = number (0 + sum_list ?xs)"
    by (rule sum_small)
  then have sum: "sum_numbers (map number ?xs) = number (sum_list ?xs)"
    by (simp add: sum_numbers_def)
  have "\<bar>sum_list ?xs\<bar> \<le> sum_list (map abs ?xs)"
    by (rule sum_list_abs)
  with abs_le have s: "\<bar>sum_list ?xs\<bar> \<le> sum_list (map weight ts)"
    by simp
  from Node.prems s have "\<bar>c\<bar> < 2 ^ 53" and "\<bar>sum_list ?xs\<bar> < 2 ^ 53"
    and "\<bar>c + sum_list ?xs\<bar> < 2 ^ 53"
    by simp_all
  then have add: "js_add (number c) (number (sum_list ?xs)) = number (c + sum_list ?xs)"
    by (rule add_small)
  have "tree_cost (map_tree number (Node c ts))
          = js_add (number c) (sum_numbers (map tree_cost (map (map_tree number) ts)))"
    by simp
  also have "\<dots> = number (c + sum_list ?xs)"
    by (simp only: kids sum add)
  finally show ?case
    by simp
qed

lemma height_map_tree: "height (map_tree f t) = height t"
proof (induction t)
  case (Leaf c)
  then show ?case by simp
next
  case (Node c ts)
  then have "map height (map (map_tree f) ts) = map height ts"
    by simp
  then show ?case
    by (simp del: map_map)
qed

subsection \<open>The total cost of a tree\<close>

lemma sum_children:
  "map g xs = map Some vs \<Longrightarrow>
   foldl (\<lambda>acc child.
            case acc of
              None \<Rightarrow> None
            | Some childrenCost \<Rightarrow>
                (case g child of None \<Rightarrow> None | Some c \<Rightarrow> Some (js_add childrenCost c)))
         (Some a) xs
     = Some (foldl js_add a vs)"
proof (induction xs arbitrary: vs a)
  case Nil
  then show ?case by simp
next
  case (Cons x xs)
  then obtain v ws where "vs = v # ws" and "g x = Some v" and "map g xs = map Some ws"
    by (cases vs) auto
  with Cons.IH [of ws "js_add a v"] show ?case
    by simp
qed

lemma height_child: "t \<in> set ts \<Longrightarrow> height t \<le> foldr max (map height ts) 0"
  by (induction ts) auto

lemma getTotalCost_shape:
  "shape cs t r \<Longrightarrow> height t < fuel \<Longrightarrow> getTotalCost fuel cs r = Some (tree_cost t)"
proof (induction t arbitrary: r fuel)
  case (Leaf c)
  then obtain n where "fuel = Suc n"
    by (cases fuel) auto
  with Leaf show ?case
    by simp
next
  case (Node c ts)
  from Node.prems(2) obtain n where fuel: "fuel = Suc n" and n: "foldr max (map height ts) 0 < n"
    by (cases fuel) auto
  from Node.prems(1) have cls: "component_class (cs r) = ContainerComponent"
    and c: "cost (cs r) = c" and kids: "list_all2 (shape cs) ts (children (cs r))"
    by simp_all
  have "map (getTotalCost n cs) (children (cs r)) = map Some (map tree_cost ts)"
  proof (rule nth_equalityI)
    show "length (map (getTotalCost n cs) (children (cs r)))
            = length (map Some (map tree_cost ts))"
      using kids by (simp add: list_all2_lengthD)
  next
    fix i
    assume "i < length (map (getTotalCost n cs) (children (cs r)))"
    then have i: "i < length ts"
      using kids by (simp add: list_all2_lengthD)
    then have "shape cs (ts ! i) (children (cs r) ! i)"
      using kids by (simp add: list_all2_nthD)
    moreover have "height (ts ! i) < n"
      using i n height_child [of "ts ! i" ts] by simp
    ultimately have "getTotalCost n cs (children (cs r) ! i) = Some (tree_cost (ts ! i))"
      using i by (intro Node.IH) simp_all
    with i kids
    show "map (getTotalCost n cs) (children (cs r)) ! i = map Some (map tree_cost ts) ! i"
      by (simp add: list_all2_lengthD)
  qed
  from sum_children [OF this, of "number 0"] cls c fuel show ?case
    by (simp add: sum_numbers_def)
qed

lemma children_costs:
  assumes "shape cs (Node c ts) r" and "height (Node c ts) < fuel"
  shows "map (getTotalCost fuel cs) (children (cs r)) = map Some (map tree_cost ts)"
proof (rule nth_equalityI)
  from assms(1) have kids: "list_all2 (shape cs) ts (children (cs r))"
    by simp
  show "length (map (getTotalCost fuel cs) (children (cs r)))
          = length (map Some (map tree_cost ts))"
    using kids by (simp add: list_all2_lengthD)
  fix i
  assume "i < length (map (getTotalCost fuel cs) (children (cs r)))"
  then have i: "i < length ts"
    using kids by (simp add: list_all2_lengthD)
  then have "shape cs (ts ! i) (children (cs r) ! i)"
    using kids by (simp add: list_all2_nthD)
  moreover have "height (ts ! i) < fuel"
    using i assms(2) height_child [of "ts ! i" ts] by simp
  ultimately have "getTotalCost fuel cs (children (cs r) ! i) = Some (tree_cost (ts ! i))"
    by (rule getTotalCost_shape)
  with i kids
  show "map (getTotalCost fuel cs) (children (cs r)) ! i = map Some (map tree_cost ts) ! i"
    by (simp add: list_all2_lengthD)
qed

lemma app_tree_cost:
  "getTotalCost (Suc (Suc (Suc n))) (app_tree cs) mainPackage = Some (number 40)"
  by (simp add: app_tree_def addChild_def setParent_def new_TreeComponent_def Let_def
      mainPackage_def mediumItem_def smallPackage_def smallItem_def smallerItem_def
      add_0_5 add_5_3 add_7_8 add_0_10 add_10_15 add_15_25)

lemma app_tree_shape: "shape (app_tree cs) (map_tree number app_costs) mainPackage"
  by (simp add: app_tree_def app_costs_def addChild_def setParent_def new_TreeComponent_def
      Let_def mainPackage_def mediumItem_def smallPackage_def smallItem_def smallerItem_def)

lemma app_costs_cost:
  "height app_costs < 3 \<and> weight app_costs < 2 ^ 53 \<and> exact_cost app_costs = 40"
  by (simp add: app_costs_def)

text \<open>
  The package of cost \<open>2 ^ 53\<close> with one item of cost \<open>1\<close> has the total cost
  \<open>2 ^ 53\<close>, as the sum of the two numbers is.
\<close>

lemma big_package_cost:
  "getTotalCost (Suc (Suc n)) (big_package cs) mainPackage = Some (number 9007199254740992)"
  by (simp add: big_package_def addChild_def setParent_def new_TreeComponent_def Let_def
      mainPackage_def mediumItem_def add_rounds)

text \<open>
  C9. Where the store below \<open>r\<close> is a finite tree \<open>t\<close> (no component is its own
  descendant) and the fuel exceeds the height of the tree, \<open>getTotalCost\<close> returns.
  On a leaf it returns the leaf's own cost. On a container it returns the container's
  own cost plus the sum of what \<open>getTotalCost\<close> returns on its current children, each
  of which returns as well; over the whole subtree this is \<open>tree_cost t\<close>. Plus and
  sum are those of numbers, the sum taken over the children in their order. Where the
  costs of the tree are integers whose absolute values add up to less than \<open>2 ^ 53\<close>,
  the total is the sum of these integers. The tree that \<open>app\<close> builds yields 40, which
  is 15 + 10 + (7 + 5 + 3).
\<close>

theorem getTotalCost_tree:
  "(shape cs t r \<and> height t < fuel \<longrightarrow>
      getTotalCost fuel cs r = Some (tree_cost t) \<and>
      (component_class (cs r) = LeafComponent \<longrightarrow>
         getTotalCost fuel cs r = Some (cost (cs r))) \<and>
      (component_class (cs r) = ContainerComponent \<longrightarrow>
         (\<exists>vs. map (getTotalCost fuel cs) (children (cs r)) = map Some vs \<and>
               getTotalCost fuel cs r = Some (js_add (cost (cs r)) (sum_numbers vs))))) \<and>
   (shape cs (map_tree number costs) r \<and> height costs < fuel \<and> weight costs < 2 ^ 53 \<longrightarrow>
      getTotalCost fuel cs r = Some (number (exact_cost costs))) \<and>
   getTotalCost (Suc (Suc (Suc n))) (app_tree cs') mainPackage = Some (number 40) \<and>
   js_add (js_add (number 15) (number 10)) (js_add (js_add (number 7) (number 5)) (number 3))
     = number 40"
proof -
  have "getTotalCost fuel cs r = Some (tree_cost t) \<and>
      (component_class (cs r) = LeafComponent \<longrightarrow>
         getTotalCost fuel cs r = Some (cost (cs r))) \<and>
      (component_class (cs r) = ContainerComponent \<longrightarrow>
         (\<exists>vs. map (getTotalCost fuel cs) (children (cs r)) = map Some vs \<and>
               getTotalCost fuel cs r = Some (js_add (cost (cs r)) (sum_numbers vs))))"
    if sh: "shape cs t r" and h: "height t < fuel"
  proof (cases t)
    case (Leaf c)
    with sh h getTotalCost_shape [OF sh h] show ?thesis
      by simp
  next
    case (Node c ts)
    with sh h
    have kids: "map (getTotalCost fuel cs) (children (cs r)) = map Some (map tree_cost ts)"
      by (intro children_costs) simp_all
    from Node sh have c: "cost (cs r) = c" and cls: "component_class (cs r) = ContainerComponent"
      by simp_all
    from getTotalCost_shape [OF sh h] Node c
    have val: "getTotalCost fuel cs r
                 = Some (js_add (cost (cs r)) (sum_numbers (map tree_cost ts)))"
      by simp
    from kids val have "\<exists>vs. map (getTotalCost fuel cs) (children (cs r)) = map Some vs \<and>
        getTotalCost fuel cs r = Some (js_add (cost (cs r)) (sum_numbers vs))"
      by blast
    with getTotalCost_shape [OF sh h] cls show ?thesis
      by simp
  qed
  then have gen: "shape cs t r \<and> height t < fuel \<longrightarrow>
      getTotalCost fuel cs r = Some (tree_cost t) \<and>
      (component_class (cs r) = LeafComponent \<longrightarrow>
         getTotalCost fuel cs r = Some (cost (cs r))) \<and>
      (component_class (cs r) = ContainerComponent \<longrightarrow>
         (\<exists>vs. map (getTotalCost fuel cs) (children (cs r)) = map Some vs \<and>
               getTotalCost fuel cs r = Some (js_add (cost (cs r)) (sum_numbers vs))))"
    by blast
  have "getTotalCost fuel cs r = Some (number (exact_cost costs))"
    if sh: "shape cs (map_tree number costs) r" and h: "height costs < fuel"
      and w: "weight costs < 2 ^ 53"
  proof -
    from h have "height (map_tree number costs) < fuel"
      by (simp add: height_map_tree)
    with sh have "getTotalCost fuel cs r = Some (tree_cost (map_tree number costs))"
      by (rule getTotalCost_shape)
    with w show ?thesis
      by (simp add: tree_cost_exact)
  qed
  then have ints: "shape cs (map_tree number costs) r \<and> height costs < fuel \<and>
      weight costs < 2 ^ 53 \<longrightarrow> getTotalCost fuel cs r = Some (number (exact_cost costs))"
    by blast
  have app: "getTotalCost (Suc (Suc (Suc n))) (app_tree cs') mainPackage = Some (number 40)"
    by (rule app_tree_cost)
  from gen ints app add_as_written show ?thesis
    by (intro conjI)
qed

theorem getTotalCost_tree_witness:
  "shape (app_tree (\<lambda>_. new_TreeComponent LeafComponent (number 0)))
     (map_tree number app_costs) mainPackage \<and>
   height (map_tree number app_costs) < 3 \<and>
   height app_costs < 3 \<and> weight app_costs < 2 ^ 53 \<and>
   getTotalCost 3 (app_tree (\<lambda>_. new_TreeComponent LeafComponent (number 0))) mainPackage
     = Some (tree_cost (map_tree number app_costs)) \<and>
   getTotalCost 3 (app_tree (\<lambda>_. new_TreeComponent LeafComponent (number 0))) mainPackage
     = Some (number (exact_cost app_costs)) \<and>
   exact_cost app_costs = 40"
proof -
  let ?cs = "app_tree (\<lambda>_. new_TreeComponent LeafComponent (number 0))"
  have sh: "shape ?cs (map_tree number app_costs) mainPackage"
    by (rule app_tree_shape)
  have h: "height app_costs < 3" and w: "weight app_costs < 2 ^ 53"
    and c: "exact_cost app_costs = 40"
    using app_costs_cost by simp_all
  have h': "height (map_tree number app_costs) < 3"
    using h by (simp add: height_map_tree)
  note inst = getTotalCost_tree
    [where cs = ?cs and t = "map_tree number app_costs" and r = mainPackage and fuel = 3
       and costs = app_costs and n = 0 and cs' = ?cs]
  from inst sh h' have "getTotalCost 3 ?cs mainPackage = Some (tree_cost (map_tree number app_costs))"
    by blast
  moreover from inst sh h w have "getTotalCost 3 ?cs mainPackage = Some (number (exact_cost app_costs))"
    by blast
  ultimately show ?thesis
    using sh h h' w c by blast
qed

section \<open>Properties of the prototype\<close>

lemma objects_set_prop:
  "objects (set_prop a key v h)
     = (objects h)(a := (objects h a)\<lparr>own := (own (objects h a))(key \<mapsto> v)\<rparr>)"
  by (simp add: set_prop_def)

lemma get_own: "own (objects h a) key = Some v \<Longrightarrow> get h a key = Some v"
  by (subst get.simps) simp

lemma get_inherited:
  "own (objects h a) key = None \<Longrightarrow> proto (objects h a) = Some p \<Longrightarrow>
   get h a key = get h p key"
  by (subst get.simps) simp

lemma app_heap_objects:
  "fresh_object app_heap = 3 \<and>
   own (objects app_heap 2) ''bio'' = Some (Ref 1) \<and>
   own (objects app_heap 1) ''name'' = Some (Str ''Ivy'')"
  by (simp add: app_heap_def object_literal_def alloc_def initial_heap_def
      Duplicant_prototype_def)

text \<open>
  C8. Let \<open>d\<close> be the duplicant that \<open>new Duplicant(i, data)\<close> creates, where the
  object \<open>data\<close> has the object \<open>bio\<close> as its own property \<open>bio\<close>. Then \<open>d.clone()\<close>
  returns a new object \<open>c\<close> whose \<open>data\<close> is a new object \<open>cd\<close>, not \<open>data\<close>
  itself, but nothing below it is copied: \<open>c.data.bio\<close> and \<open>d.data.bio\<close> are the
  same object \<open>bio\<close>, reached through the prototype of \<open>cd\<close>. So after an assignment
  to \<open>name\<close> or \<open>age\<close> of the original's \<open>bio\<close>, the clone reads the new value at
  \<open>c.data.bio\<close>. The \<open>id\<close> that the clone reads is the original's.
\<close>

theorem clone_shares_bio:
  assumes "data < fresh_object h" and "bio < fresh_object h"
    and "own (objects h data) ''bio'' = Some (Ref bio)"
    and "new_Duplicant (Num i) (Ref data) h = (d, h1)"
  shows "\<exists>c cd h2. clone d h1 = Some (Inr (c, h2)) \<and> c \<noteq> d \<and>
           get h2 d ''data'' = Some (Ref data) \<and>
           get h2 c ''data'' = Some (Ref cd) \<and> cd \<noteq> data \<and>
           get h2 data ''bio'' = Some (Ref bio) \<and>
           get h2 cd ''bio'' = Some (Ref bio) \<and>
           get h2 d ''id'' = Some (Num i) \<and>
           get h2 c ''id'' = Some (Num i) \<and>
           (\<forall>v. get (set_prop bio ''name'' v h2) c ''data'' = Some (Ref cd) \<and>
                get (set_prop bio ''name'' v h2) cd ''bio'' = Some (Ref bio) \<and>
                get (set_prop bio ''name'' v h2) bio ''name'' = Some v) \<and>
           (\<forall>v. get (set_prop bio ''age'' v h2) c ''data'' = Some (Ref cd) \<and>
                get (set_prop bio ''age'' v h2) cd ''bio'' = Some (Ref bio) \<and>
                get (set_prop bio ''age'' v h2) bio ''age'' = Some v)"
proof -
  let ?c = "Suc d"
  let ?cd = "Suc ?c"
  from assms(4) have d: "d = fresh_object h"
    and h1: "h1 = h\<lparr>objects := (objects h)(fresh_object h :=
                 \<lparr>proto = Some Duplicant_prototype,
                  own = [''id'' \<mapsto> Num i, ''data'' \<mapsto> Ref data]\<rparr>),
               fresh_object := Suc (fresh_object h)\<rparr>"
    by (auto simp: new_Duplicant_def alloc_def)
  obtain h1' where h1': "Object_create (Ref d) h1 = Inr (?c, h1')"
    using d h1 by (auto simp: alloc_def)
  have d_data: "get h1' d ''data'' = Some (Ref data)"
    using d h1 h1' by (intro get_own) (auto simp: alloc_def)
  obtain h2' where h2': "Object_create (Ref data) h1' = Inr (?cd, h2')"
    using d h1 h1' by (auto simp: alloc_def)
  define h2 where "h2 = set_prop ?c ''data'' (Ref ?cd) h2'"
  have cl: "clone d h1 = Some (Inr (?c, h2))"
    using h1' d_data h2' by (simp add: clone_def h2_def)
  have objs: "objects h2 = (objects h)
      (d := \<lparr>proto = Some Duplicant_prototype,
             own = [''id'' \<mapsto> Num i, ''data'' \<mapsto> Ref data]\<rparr>,
       ?c := \<lparr>proto = Some d, own = [''data'' \<mapsto> Ref ?cd]\<rparr>,
       ?cd := \<lparr>proto = Some data, own = Map.empty\<rparr>)"
    using d h1 h1' h2' by (auto simp: alloc_def set_prop_def fun_eq_iff h2_def)
  have lt: "data < d" "bio < d"
    using assms(1,2) d by simp_all
  have g1: "get h2 d ''data'' = Some (Ref data)"
    by (rule get_own) (simp add: objs)
  have g2: "get h2 ?c ''data'' = Some (Ref ?cd)"
    by (rule get_own) (simp add: objs)
  have g3: "get h2 data ''bio'' = Some (Ref bio)"
    using lt assms(3) by (intro get_own) (simp add: objs)
  have g4: "get h2 ?cd ''bio'' = Some (Ref bio)"
    using g3 get_inherited [of h2 ?cd "''bio''" data] by (simp add: objs)
  have g5: "get h2 d ''id'' = Some (Num i)"
    by (rule get_own) (simp add: objs)
  have g6: "get h2 ?c ''id'' = Some (Num i)"
    using g5 get_inherited [of h2 ?c "''id''" d] by (simp add: objs)
  have mut: "get (set_prop bio key v h2) ?c ''data'' = Some (Ref ?cd) \<and>
             get (set_prop bio key v h2) ?cd ''bio'' = Some (Ref bio) \<and>
             get (set_prop bio key v h2) bio key = Some v"
    if "key \<noteq> ''bio''" for key v
  proof -
    let ?h3 = "set_prop bio key v h2"
    have m1: "get ?h3 ?c ''data'' = Some (Ref ?cd)"
      using lt by (intro get_own) (simp add: objects_set_prop objs)
    have "get ?h3 data ''bio'' = Some (Ref bio)"
      using lt assms(3) that by (intro get_own) (auto simp: objects_set_prop objs)
    then have m2: "get ?h3 ?cd ''bio'' = Some (Ref bio)"
      using lt get_inherited [of ?h3 ?cd "''bio''" data] by (simp add: objects_set_prop objs)
    have m3: "get ?h3 bio key = Some v"
      by (rule get_own) (simp add: objects_set_prop)
    from m1 m2 m3 show ?thesis
      by simp
  qed
  have name: "\<forall>v. get (set_prop bio ''name'' v h2) ?c ''data'' = Some (Ref ?cd) \<and>
             get (set_prop bio ''name'' v h2) ?cd ''bio'' = Some (Ref bio) \<and>
             get (set_prop bio ''name'' v h2) bio ''name'' = Some v"
    using mut [of "''name''"] by simp
  have age: "\<forall>v. get (set_prop bio ''age'' v h2) ?c ''data'' = Some (Ref ?cd) \<and>
             get (set_prop bio ''age'' v h2) ?cd ''bio'' = Some (Ref bio) \<and>
             get (set_prop bio ''age'' v h2) bio ''age'' = Some v"
    using mut [of "''age''"] by simp
  have ne: "?c \<noteq> d" "?cd \<noteq> data"
    using lt by simp_all
  from cl ne g1 g2 g3 g4 g5 g6 name age show ?thesis
    by (intro exI [of _ ?c] exI [of _ ?cd] exI [of _ h2] conjI)
qed

theorem clone_shares_bio_witness:
  "(2::nat) < fresh_object app_heap \<and> (1::nat) < fresh_object app_heap \<and>
   own (objects app_heap 2) ''bio'' = Some (Ref 1) \<and>
   fst (new_Duplicant (Num 7) (Ref 2) app_heap) = 3 \<and>
   (\<exists>c cd h2.
      clone 3 (snd (new_Duplicant (Num 7) (Ref 2) app_heap)) = Some (Inr (c, h2)) \<and>
      get h2 c ''data'' = Some (Ref cd) \<and> cd \<noteq> 2 \<and>
      get h2 2 ''bio'' = Some (Ref 1) \<and>
      get h2 cd ''bio'' = Some (Ref 1) \<and>
      get h2 c ''id'' = Some (Num 7) \<and>
      get (set_prop 1 ''name'' (Str ''Eve'') h2) cd ''bio'' = Some (Ref 1) \<and>
      get (set_prop 1 ''name'' (Str ''Eve'') h2) 1 ''name'' = Some (Str ''Eve''))"
proof -
  have a: "(2::nat) < fresh_object app_heap" and b: "(1::nat) < fresh_object app_heap"
    and c: "own (objects app_heap 2) ''bio'' = Some (Ref 1)"
    using app_heap_objects by simp_all
  have d: "fst (new_Duplicant (Num 7) (Ref 2) app_heap) = 3"
    using app_heap_objects by (simp add: new_Duplicant_def alloc_def)
  then have n: "new_Duplicant (Num 7) (Ref 2) app_heap
                  = (3, snd (new_Duplicant (Num 7) (Ref 2) app_heap))"
    by (metis prod.collapse)
  from clone_shares_bio [OF a b c n] a b c d show ?thesis
    by blast
qed

end
